theory Spec2Isabelle
  imports Main "HOL-Library.Word"
begin

section \<open>The RESP parser of the proxy (pkg/proxy/parser/parser.go)\<close>

text \<open>
  Bytes are \<^typ>\<open>char\<close> (eight bits), byte slices and Go strings are \<^typ>\<open>string\<close>.
  Go's \<open>int\<close> is the 64-bit signed integer of the platforms the proxy runs on: it is a
  \<^typ>\<open>64 word\<close> whose arithmetic wraps, read back with \<^const>\<open>sint\<close>. The loop
  counter of \<open>Btoi\<close> is a \<open>uint8\<close>, an \<^typ>\<open>8 word\<close>.
  A \<open>bufio.Reader\<close> over a finite input is the list of the bytes not yet read; a
  function that reads returns what is left. Allocation is taken to succeed.
\<close>

subsection \<open>Errors\<close>

text \<open>
  The source builds its errors from message strings; each constructor stands for one
  message (or one error of the standard library). \<open>Panic\<close> is a Go run-time panic
  (a slice bound out of range): it is not an error value and no caller catches it.
  \<open>OutOfFuel\<close> belongs to the recursion bound of \<open>Parse_fuel\<close> below and is never
  returned by \<open>Parse\<close>.
\<close>

datatype error =
    EOF                \<comment> \<open>io.EOF from ReadBytes or ReadFull: the stream ended\<close>
  | UnexpectedEOF      \<comment> \<open>io.ErrUnexpectedEOF from ReadFull\<close>
  | InvalidPacket      \<comment> \<open>"invalid redis packet"\<close>
  | ProtocolError      \<comment> \<open>"redis protocol error"\<close>
  | BadTerminator      \<comment> \<open>"should be just 0"\<close>
  | InvalidNumber      \<comment> \<open>"Invalid number"\<close>
  | InvalidResp        \<comment> \<open>"invalid resp"\<close>
  | Panic
  | OutOfFuel

subsection \<open>Data model\<close>

datatype RespType = ErrorResp | SimpleString | IntegerResp | BulkResp | MultiResp | NoKey

datatype Resp = Resp (Type: RespType) (Raw: string) (Multi: "Resp list")

definition CR :: char where "CR = CHR 0x0D"
definition LF :: char where "LF = CHR 0x0A"

definition NEW_LINE :: string where
  "NEW_LINE = [CR, LF]"

definition fakeKey :: string where
  "fakeKey = ''fakeKey''"

definition noKeyOps :: "string \<rightharpoonup> string" where
  "noKeyOps = [''PING'' \<mapsto> fakeKey, ''SLOTSNUM'' \<mapsto> fakeKey, ''SLOTSCHECK'' \<mapsto> fakeKey]"

subsection \<open>Integer codec\<close>

text \<open>\<open>strconv.Itoa\<close> on a natural number: its decimal digits, most significant first.\<close>

definition digit_char :: "nat \<Rightarrow> char" where
  "digit_char d = char_of (48 + d)"

fun decimal :: "nat \<Rightarrow> string" where
  "decimal n = (if n < 10 then [digit_char n] else decimal (n div 10) @ [digit_char (n mod 10)])"

declare decimal.simps [simp del]

text \<open>
  \<open>Itoa\<close>: the three branches of the source return the same bytes, the middle one from
  the table \<open>intBuffer\<close> that \<open>init\<close> fills with \<open>strconv.Itoa i\<close> for \<open>i < 10000\<close>.
\<close>

definition intBuffer :: "nat \<Rightarrow> string" where
  "intBuffer i = decimal i"

definition Itoa :: "int \<Rightarrow> string" where
  "Itoa i = (if i < 0 then CHR ''-'' # decimal (nat (- i))
             else if i < 10000 then intBuffer (nat i)
             else decimal (nat i))"

text \<open>
  \<open>Btoi\<close>: the loop \<open>for i := uint8(0); i < uint8(len(b)); i++\<close> with the accumulators
  \<open>n\<close> and \<open>sign\<close>. The test \<open>b[i] >= 0 && b[i] <= '9'\<close> is the source's.
\<close>

function Btoi_loop :: "string \<Rightarrow> 8 word \<Rightarrow> 64 word \<Rightarrow> 64 word \<Rightarrow> error + int" where
  "Btoi_loop b i n sign =
     (if i < word_of_nat (length b) then
        (if i = 0 \<and> b ! unat i = CHR ''-'' then
           (if length b = 1 then Inl InvalidNumber
            else Btoi_loop b (i + 1) n (- 1))
         else if (0::nat) \<le> of_char (b ! unat i) \<and> (of_char (b ! unat i) :: nat) \<le> of_char CHR ''9'' then
           Btoi_loop b (i + 1)
             ((if 0 < i then n * 10 else n)
                + (word_of_nat (of_char (b ! unat i)) - word_of_nat (of_char CHR ''0'')))
             sign
         else Inl InvalidNumber)
      else Inr (sint (sign * n)))"
  by pat_completeness auto
termination
proof (relation "measure (\<lambda>(b, i, n, sign). unat (word_of_nat (length b) :: 8 word) - unat i)")
  show "wf (measure (\<lambda>(b, i, n, sign). unat (word_of_nat (length b) :: 8 word) - unat i))"
    by simp
next
  fix b :: string and i :: "8 word" and n sign :: "64 word"
  assume lt: "i < word_of_nat (length b)"
  then have "unat (i + 1) = Suc (unat i)"
    by unat_arith
  moreover from lt have "unat i < unat (word_of_nat (length b) :: 8 word)"
    by (simp add: word_less_nat_alt)
  ultimately have dec: "unat (word_of_nat (length b) :: 8 word) - unat (i + 1)
      < unat (word_of_nat (length b) :: 8 word) - unat i"
    by simp
  show "((b, i + 1, n, - 1), (b, i, n, sign))
      \<in> measure (\<lambda>(b, i, n, sign). unat (word_of_nat (length b) :: 8 word) - unat i)"
    using dec by simp
  fix m :: "64 word"
  show "((b, i + 1, m, sign), (b, i, n, sign))
      \<in> measure (\<lambda>(b, i, n, sign). unat (word_of_nat (length b) :: 8 word) - unat i)"
    using dec by simp
qed

declare Btoi_loop.simps [simp del]

definition Btoi :: "string \<Rightarrow> error + int" where
  "Btoi b = Btoi_loop b 0 0 1"

subsection \<open>Line reader and payload extraction\<close>

text \<open>
  \<open>readLine\<close>: \<open>ReadBytes('\n')\<close> returns the bytes up to and including the first
  line feed, or \<open>io.EOF\<close> when the stream ends before one.
\<close>

definition readLine :: "string \<Rightarrow> error + (string \<times> string)" where
  "readLine r =
     (if LF \<in> set r then
        (let line = takeWhile (\<lambda>c. c \<noteq> LF) r @ [LF];
             rest = drop (length line) r
         in if length line < 2 \<or> line ! (length line - 2) \<noteq> CR then Inl InvalidPacket
            else Inr (line, rest))
      else Inl EOF)"

text \<open>The slice expression \<open>b[1 : len(b)-2]\<close>, which panics when \<open>len(b) < 3\<close>.\<close>

definition strip :: "string \<Rightarrow> error + string" where
  "strip b = (if length b < 3 then Inl Panic else Inr (take (length b - 3) (drop 1 b)))"

definition raw2Bulk :: "Resp \<Rightarrow> error + string" where
  "raw2Bulk r = strip (Raw r)"

definition raw2Error :: "Resp \<Rightarrow> error + string" where
  "raw2Error r = strip (Raw r)"

text \<open>\<open>bytes.IndexByte\<close>: the index of the first occurrence, or \<open>-1\<close>.\<close>

definition IndexByte :: "string \<Rightarrow> char \<Rightarrow> int" where
  "IndexByte s c = (if c \<in> set s then int (length (takeWhile (\<lambda>x. x \<noteq> c) s)) else - 1)"

definition Op :: "Resp \<Rightarrow> error + string" where
  "Op r =
     (if length (Multi r) > 0 then
        (case raw2Bulk (Multi r ! 0) of
           Inl e \<Rightarrow> Inl e
         | Inr op \<Rightarrow>
             (let startPos = IndexByte op LF
              in if startPos < 0 then Inl InvalidResp
                 else Inr (drop (nat (startPos + 1)) op)))
      else Inl InvalidResp)"

fun defaultGetKeys_loop :: "Resp list \<Rightarrow> string list \<Rightarrow> error + string list" where
  "defaultGetKeys_loop [] keys = Inr keys"
| "defaultGetKeys_loop (v # vs) keys =
     (case raw2Bulk v of
        Inl e \<Rightarrow> Inl e
      | Inr key \<Rightarrow>
          (let startPos = IndexByte key LF
           in if startPos < 0 then Inl InvalidResp
              else defaultGetKeys_loop vs (keys @ [drop (nat (startPos + 1)) key])))"

text \<open>
  \<open>defaultGetKeys\<close>: \<open>r.Multi[1:]\<close> panics on an empty \<open>Multi\<close>. The \<open>nil\<close> key list
  of the source is the empty list.
\<close>

definition defaultGetKeys :: "Resp \<Rightarrow> error + string list" where
  "defaultGetKeys r =
     (if length (Multi r) < 1 then Inl Panic
      else if length (drop 1 (Multi r)) = 0 then Inr []
      else defaultGetKeys_loop (drop 1 (Multi r)) [])"

subsection \<open>Decoder\<close>

definition IsLetter :: "char \<Rightarrow> bool" where
  "IsLetter c =
     (if (of_char CHR ''a'' :: nat) \<le> of_char c \<and> (of_char c :: nat) \<le> of_char CHR ''z'' then True
      else if (of_char CHR ''A'' :: nat) \<le> of_char c \<and> (of_char c :: nat) \<le> of_char CHR ''Z'' then True
      else False)"

text \<open>\<open>strings.Split(s, " ")\<close>: the pieces between single spaces, empty pieces kept.\<close>

fun Split :: "string \<Rightarrow> string list" where
  "Split [] = [[]]"
| "Split (c # cs) =
     (if c = CHR '' '' then [] # Split cs
      else (case Split cs of [] \<Rightarrow> [[c]] | t # ts \<Rightarrow> (c # t) # ts))"

text \<open>
  \<open>strings.TrimSpace\<close> removes the leading and trailing white space that
  \<open>unicode.IsSpace\<close> accepts. On the bytes of a Go string these are the six ASCII
  characters and the UTF-8 encodings of U+0085, U+00A0, U+1680, U+2000 to U+200A,
  U+2028, U+2029, U+202F, U+205F and U+3000.
\<close>

definition spaceRunes :: "string list" where
  "spaceRunes =
     [[CHR 0x09], [CHR 0x0A], [CHR 0x0B], [CHR 0x0C], [CHR 0x0D], [CHR 0x20],
      [CHR 0xC2, CHR 0x85], [CHR 0xC2, CHR 0xA0], [CHR 0xE1, CHR 0x9A, CHR 0x80]]
     @ map (\<lambda>k. [CHR 0xE2, CHR 0x80, char_of (128 + k)]) [0 ..< 11::nat]
     @ [[CHR 0xE2, CHR 0x80, CHR 0xA8], [CHR 0xE2, CHR 0x80, CHR 0xA9],
        [CHR 0xE2, CHR 0x80, CHR 0xAF], [CHR 0xE2, CHR 0x81, CHR 0x9F],
        [CHR 0xE3, CHR 0x80, CHR 0x80]]"

definition spaceWidth :: "string list \<Rightarrow> string \<Rightarrow> nat" where
  "spaceWidth ws s =
     (case filter (\<lambda>w. take (length w) s = w) ws of [] \<Rightarrow> 0 | w # _ \<Rightarrow> length w)"

fun trimLeft :: "string list \<Rightarrow> string \<Rightarrow> string" where
  "trimLeft ws s =
     (if spaceWidth ws s = 0 \<or> s = [] then s else trimLeft ws (drop (spaceWidth ws s) s))"

declare trimLeft.simps [simp del]

definition TrimSpace :: "string \<Rightarrow> string" where
  "TrimSpace s = rev (trimLeft (map rev spaceRunes) (rev (trimLeft spaceRunes s)))"

text \<open>
  Modelled from the spec: \<open>respcoding.Marshal\<close> of the package github.com/ngaut/resp is
  not among the sources. On a string it is "the standard bulk-encoding routine": the
  marker, the length, the terminator, the bytes, the terminator. It does not fail.
\<close>

definition Marshal :: "string \<Rightarrow> error + string" where
  "Marshal str = Inr ([CHR ''$''] @ Itoa (int (length str)) @ NEW_LINE @ str @ NEW_LINE)"

text \<open>
  \<open>ReadBulk\<close> returns the extended \<open>raw\<close> and the rest of the stream. \<open>io.ReadFull\<close>
  fails with \<open>io.EOF\<close> when no byte could be read and with \<open>io.ErrUnexpectedEOF\<close> when
  some but not all could.
\<close>

definition ReadBulk :: "string \<Rightarrow> int \<Rightarrow> string \<Rightarrow> error + (string \<times> string)" where
  "ReadBulk r sz raw =
     (if sz < 0 then Inr (raw, r)
      else if length r < nat sz then Inl (if r = [] then EOF else UnexpectedEOF)
      else
        (let buf = take (nat sz) r; r1 = drop (nat sz) r; raw1 = raw @ buf
         in case readLine r1 of
              Inl e \<Rightarrow> Inl e
            | Inr (line, r2) \<Rightarrow>
                if length line \<noteq> 2 then Inl BadTerminator else Inr (raw1 @ line, r2)))"

text \<open>The \<open>default\<close> branch of \<open>Parse\<close>: a telnet text command on one line.\<close>

fun Parse_telnet_loop :: "string list \<Rightarrow> Resp list \<Rightarrow> error + Resp list" where
  "Parse_telnet_loop [] multi = Inr multi"
| "Parse_telnet_loop (s # strs) multi =
     (let str = TrimSpace s
      in if length str > 0 then
           (case Marshal str of
              Inl e \<Rightarrow> Inl ProtocolError
            | Inr b \<Rightarrow> Parse_telnet_loop strs (multi @ [Resp BulkResp b []]))
         else Parse_telnet_loop strs multi)"

definition Parse_telnet :: "string \<Rightarrow> error + Resp" where
  "Parse_telnet line =
     (if \<not> IsLetter (line ! 0) then Inl ProtocolError
      else
        (let strs = Split line;
             raw = [CHR ''*''] @ Itoa (int (length strs)) @ NEW_LINE
         in case Parse_telnet_loop strs [] of
              Inl e \<Rightarrow> Inl e
            | Inr multi \<Rightarrow> Inr (Resp MultiResp raw multi)))"

text \<open>
  \<open>Parse\<close> calls itself for every child of an array, on what the earlier children left
  of the stream. The first argument of \<open>Parse_fuel\<close> bounds the nesting depth of these
  calls; \<open>Parse_multi\<close> is the loop \<open>for j := 0; j < i; j++\<close>, counting the children
  that remain. Every call consumes a line, so a depth beyond the length of the input
  is never reached (\<open>Parse_fuel_enough\<close> below), and \<open>Parse\<close> starts there.
\<close>

fun Parse_fuel :: "nat \<Rightarrow> string \<Rightarrow> error + (Resp \<times> string)"
  and Parse_multi :: "nat \<Rightarrow> nat \<Rightarrow> string \<Rightarrow> error + (Resp list \<times> string)" where
  "Parse_fuel 0 r = Inl OutOfFuel"
| "Parse_fuel (Suc f) r =
     (case readLine r of
        Inl e \<Rightarrow> Inl e
      | Inr (line, r1) \<Rightarrow>
          if line ! 0 = CHR ''-'' then Inr (Resp ErrorResp line [], r1)
          else if line ! 0 = CHR ''+'' then Inr (Resp SimpleString line [], r1)
          else if line ! 0 = CHR '':'' then Inr (Resp IntegerResp line [], r1)
          else if line ! 0 = CHR ''$'' then
            (case strip line of
               Inl e \<Rightarrow> Inl e
             | Inr num \<Rightarrow>
                 (case Btoi num of
                    Inl e \<Rightarrow> Inl e
                  | Inr sz \<Rightarrow>
                      (case ReadBulk r1 sz line of
                         Inl e \<Rightarrow> Inl e
                       | Inr (raw, r2) \<Rightarrow> Inr (Resp BulkResp raw [], r2))))
          else if line ! 0 = CHR ''*'' then
            (case strip line of
               Inl e \<Rightarrow> Inl e
             | Inr num \<Rightarrow>
                 (case Btoi num of
                    Inl e \<Rightarrow> Inl e
                  | Inr i \<Rightarrow>
                      if i \<ge> 0 then
                        (case Parse_multi f (nat i) r1 of
                           Inl e \<Rightarrow> Inl e
                         | Inr (multi, r2) \<Rightarrow> Inr (Resp MultiResp line multi, r2))
                      else Inr (Resp MultiResp line [], r1)))
          else
            (case Parse_telnet line of
               Inl e \<Rightarrow> Inl e
             | Inr resp \<Rightarrow> Inr (resp, r1)))"
| "Parse_multi f 0 r = Inr ([], r)"
| "Parse_multi f (Suc j) r =
     (case Parse_fuel f r of
        Inl e \<Rightarrow> Inl e
      | Inr (rp, r1) \<Rightarrow>
          (case Parse_multi f j r1 of
             Inl e \<Rightarrow> Inl e
           | Inr (rps, r2) \<Rightarrow> Inr (rp # rps, r2)))"

definition Parse :: "string \<Rightarrow> error + (Resp \<times> string)" where
  "Parse r = Parse_fuel (Suc (length r)) r"

subsection \<open>Key extraction\<close>

definition thridAsKeyTbl :: "string list" where
  "thridAsKeyTbl = [''ZINTERSTORE'', ''ZUNIONSTORE'', ''EVAL'', ''EVALSHA'']"

fun thridAsKey_loop :: "Resp list \<Rightarrow> string list \<Rightarrow> int \<Rightarrow> error + string list" where
  "thridAsKey_loop [] keys numKeys = Inr keys"
| "thridAsKey_loop (v # vs) keys numKeys =
     (case raw2Bulk v of
        Inl e \<Rightarrow> Inl e
      | Inr k \<Rightarrow>
          (let keys' = keys @ [k]
           in if int (length keys') = numKeys then Inr keys'
              else thridAsKey_loop vs keys' numKeys))"

definition thridAsKey :: "Resp \<Rightarrow> error + string list" where
  "thridAsKey r =
     (if length (Multi r) < 4 then Inr [fakeKey]
      else
        (case raw2Bulk (Multi r ! 2) of
           Inl e \<Rightarrow> Inl e
         | Inr b \<Rightarrow>
             (case Btoi b of
                Inl e \<Rightarrow> Inl e
              | Inr numKeys \<Rightarrow> thridAsKey_loop (drop 3 (Multi r)) [] numKeys)))"

text \<open>The table \<open>keyFun\<close> as \<open>init\<close> builds it.\<close>

definition keyFun :: "string \<rightharpoonup> (Resp \<Rightarrow> error + string list)" where
  "keyFun = map_of (map (\<lambda>v. (v, thridAsKey)) thridAsKeyTbl)"

definition Keys :: "Resp \<Rightarrow> error + string list" where
  "Keys r =
     (case Op r of
        Inl e \<Rightarrow> Inl e
      | Inr key \<Rightarrow>
          (case keyFun key of
             None \<Rightarrow> defaultGetKeys r
           | Some f \<Rightarrow> f r))"

text \<open>
  \<open>Key\<close>: whenever \<open>Keys\<close> returns an error its key list is \<open>nil\<close>, so the test
  \<open>len(keys) > 0\<close> fails and the last line returns the placeholder with a \<open>nil\<close> error.
  A panic is not a return value and passes through.
\<close>

definition Key :: "Resp \<Rightarrow> error + string" where
  "Key r =
     (case Keys r of
        Inl e \<Rightarrow> (if e = Panic then Inl Panic else Inr fakeKey)
      | Inr keys \<Rightarrow> (if length keys > 0 then Inr (keys ! 0) else Inr fakeKey))"

subsection \<open>Encoder\<close>

fun Bytes :: "Resp \<Rightarrow> error + string"
  and Bytes_loop :: "Resp list \<Rightarrow> string \<Rightarrow> error + string" where
  "Bytes (Resp t raw multi) =
     (case t of
        NoKey \<Rightarrow>
          (case raw2Bulk (Resp t raw multi) of
             Inl e \<Rightarrow> Inl e
           | Inr b \<Rightarrow> Inr (b @ NEW_LINE))
      | SimpleString \<Rightarrow> Inr raw
      | ErrorResp \<Rightarrow> Inr raw
      | IntegerResp \<Rightarrow> Inr raw
      | BulkResp \<Rightarrow> Inr raw
      | MultiResp \<Rightarrow> (if length multi > 0 then Bytes_loop multi raw else Inr raw))"
| "Bytes_loop [] buf = Inr buf"
| "Bytes_loop (resp # rs) buf =
     (case Bytes resp of
        Inl e \<Rightarrow> Inl e
      | Inr sl \<Rightarrow> Bytes_loop rs (buf @ sl))"

subsection \<open>Inputs in RESP framing\<close>

text \<open>
  \<open>Parse_framed\<close> is \<open>Parse\<close> with the telnet branch closed: it accepts the inputs that
  \<open>Parse\<close> accepts without reading a telnet line, at the top or for a child of an
  array, and fails with the protocol error on a line that begins with no type marker.
  It only delimits these inputs in the round-trip property.
\<close>

fun Parse_framed_fuel :: "nat \<Rightarrow> string \<Rightarrow> error + (Resp \<times> string)"
  and Parse_framed_multi :: "nat \<Rightarrow> nat \<Rightarrow> string \<Rightarrow> error + (Resp list \<times> string)" where
  "Parse_framed_fuel 0 r = Inl OutOfFuel"
| "Parse_framed_fuel (Suc f) r =
     (case readLine r of
        Inl e \<Rightarrow> Inl e
      | Inr (line, r1) \<Rightarrow>
          if line ! 0 = CHR ''-'' then Inr (Resp ErrorResp line [], r1)
          else if line ! 0 = CHR ''+'' then Inr (Resp SimpleString line [], r1)
          else if line ! 0 = CHR '':'' then Inr (Resp IntegerResp line [], r1)
          else if line ! 0 = CHR ''$'' then
            (case strip line of
               Inl e \<Rightarrow> Inl e
             | Inr num \<Rightarrow>
                 (case Btoi num of
                    Inl e \<Rightarrow> Inl e
                  | Inr sz \<Rightarrow>
                      (case ReadBulk r1 sz line of
                         Inl e \<Rightarrow> Inl e
                       | Inr (raw, r2) \<Rightarrow> Inr (Resp BulkResp raw [], r2))))
          else if line ! 0 = CHR ''*'' then
            (case strip line of
               Inl e \<Rightarrow> Inl e
             | Inr num \<Rightarrow>
                 (case Btoi num of
                    Inl e \<Rightarrow> Inl e
                  | Inr i \<Rightarrow>
                      if i \<ge> 0 then
                        (case Parse_framed_multi f (nat i) r1 of
                           Inl e \<Rightarrow> Inl e
                         | Inr (multi, r2) \<Rightarrow> Inr (Resp MultiResp line multi, r2))
                      else Inr (Resp MultiResp line [], r1)))
          else Inl ProtocolError)"
| "Parse_framed_multi f 0 r = Inr ([], r)"
| "Parse_framed_multi f (Suc j) r =
     (case Parse_framed_fuel f r of
        Inl e \<Rightarrow> Inl e
      | Inr (rp, r1) \<Rightarrow>
          (case Parse_framed_multi f j r1 of
             Inl e \<Rightarrow> Inl e
           | Inr (rps, r2) \<Rightarrow> Inr (rp # rps, r2)))"

definition Parse_framed :: "string \<Rightarrow> error + (Resp \<times> string)" where
  "Parse_framed r = Parse_framed_fuel (Suc (length r)) r"

text \<open>
  The wire form of a command in multi-bulk framing: an array header with the number of
  arguments, then every argument as a bulk string with its length.
\<close>

definition bulkString :: "string \<Rightarrow> string" where
  "bulkString a = [CHR ''$''] @ Itoa (int (length a)) @ NEW_LINE @ a @ NEW_LINE"

definition multiBulk :: "string list \<Rightarrow> string" where
  "multiBulk args = [CHR ''*''] @ Itoa (int (length args)) @ NEW_LINE @ concat (map bulkString args)"

text \<open>The node that the decoder builds for one bulk string in that form.\<close>

definition bulkNode :: "string \<Rightarrow> Resp" where
  "bulkNode a = Resp BulkResp (bulkString a) []"

section \<open>Properties\<close>

subsection \<open>The loop of the integer codec\<close>

text \<open>
  One round of the loop of \<open>Btoi\<close>, and its exit. The index stays below
  \<open>uint8(len(b))\<close>, which is \<open>len(b) mod 256\<close>, so the counter never wraps.
\<close>

lemma unat_len8: "unat (word_of_nat n :: 8 word) = n mod 256"
  by (simp add: unat_of_nat)

lemma Btoi_loop_index:
  assumes "i < (word_of_nat (length b) :: 8 word)"
  shows "unat i < length b mod 256"
  using assms by (simp add: word_less_nat_alt unat_len8)

lemma Btoi_loop_step:
  assumes "i < word_of_nat (length b)"
  shows "Btoi_loop b i n sign =
        (if i = 0 \<and> b ! unat i = CHR ''-'' then
           (if length b = 1 then Inl InvalidNumber else Btoi_loop b (i + 1) n (- 1))
         else if (of_char (b ! unat i) :: nat) \<le> of_char CHR ''9'' then
           Btoi_loop b (i + 1)
             ((if 0 < i then n * 10 else n)
                + (word_of_nat (of_char (b ! unat i)) - word_of_nat (of_char CHR ''0''))) sign
         else Inl InvalidNumber)"
  by (subst Btoi_loop.simps) (simp only: assms if_True le0 simp_thms)

lemma Btoi_loop_done:
  assumes "\<not> i < word_of_nat (length b)"
  shows "Btoi_loop b i n sign = Inr (sint (sign * n))"
  by (subst Btoi_loop.simps) (simp only: assms if_False)

lemma Btoi_loop_prefix:
  "length b = length b' \<Longrightarrow> take (length b mod 256) b = take (length b mod 256) b'
   \<Longrightarrow> Btoi_loop b i n sign = Btoi_loop b' i n sign"
proof (induction b i n sign rule: Btoi_loop.induct)
  case (1 b i n sign)
  show ?case
  proof (cases "i < word_of_nat (length b)")
    case False
    with "1.prems" show ?thesis
      by (simp add: Btoi_loop.simps [of b i n sign] Btoi_loop.simps [of b' i n sign])
  next
    case True
    then have "unat i < length b mod 256" by (rule Btoi_loop_index)
    then have "take (length b mod 256) b ! unat i = b ! unat i"
      and "take (length b mod 256) b' ! unat i = b' ! unat i"
      by simp_all
    with "1.prems" have nth: "b' ! unat i = b ! unat i" by simp
    note eqb = Btoi_loop_step [OF True, of n sign]
    from True "1.prems"(1) have True': "i < word_of_nat (length b')" by simp
    have eqb': "Btoi_loop b' i n sign =
        (if i = 0 \<and> b ! unat i = CHR ''-'' then
           (if length b = 1 then Inl InvalidNumber else Btoi_loop b' (i + 1) n (- 1))
         else if (of_char (b ! unat i) :: nat) \<le> of_char CHR ''9'' then
           Btoi_loop b' (i + 1)
             ((if 0 < i then n * 10 else n)
                + (word_of_nat (of_char (b ! unat i)) - word_of_nat (of_char CHR ''0''))) sign
         else Inl InvalidNumber)"
      using Btoi_loop_step [OF True', of n sign] by (simp only: nth "1.prems"(1) [symmetric])
    consider (minus) "i = 0 \<and> b ! unat i = CHR ''-''"
      | (digit) "\<not> (i = 0 \<and> b ! unat i = CHR ''-'')"
          "(of_char (b ! unat i) :: nat) \<le> of_char CHR ''9''"
      | (other) "\<not> (i = 0 \<and> b ! unat i = CHR ''-'')"
          "\<not> (of_char (b ! unat i) :: nat) \<le> of_char CHR ''9''"
      by blast
    then show ?thesis
    proof cases
      case minus
      show ?thesis
      proof (cases "length b = 1")
        case True
        show ?thesis unfolding eqb eqb' using minus True by auto
      next
        case False
        from "1.IH"(1) [OF True minus False "1.prems"]
        have "Btoi_loop b (i + 1) n (- 1) = Btoi_loop b' (i + 1) n (- 1)" .
        then show ?thesis unfolding eqb eqb' using minus False by auto
      qed
    next
      case digit
      have "(0::nat) \<le> of_char (b ! unat i) \<and> (of_char (b ! unat i) :: nat) \<le> of_char CHR ''9''"
        using digit(2) by simp
      from "1.IH"(2) [OF True digit(1) this "1.prems"]
      show ?thesis unfolding eqb eqb' using digit by auto
    next
      case other
      show ?thesis unfolding eqb eqb' using other by auto
    qed
  qed
qed

lemma Btoi_multiple_256: "length b mod 256 = 0 \<Longrightarrow> Btoi b = Inr 0"
proof -
  assume "length b mod 256 = 0"
  then have "(word_of_nat (length b) :: 8 word) = 0"
    by (metis unat_len8 unat_eq_zero)
  then show ?thesis
    unfolding Btoi_def by (subst Btoi_loop.simps) simp
qed

lemma Btoi_loop_error: "Btoi_loop b i n sign = Inl e \<Longrightarrow> e = InvalidNumber"
proof (induction b i n sign rule: Btoi_loop.induct)
  case (1 b i n sign)
  show ?case
  proof (cases "i < word_of_nat (length b)")
    case False
    with "1.prems" show ?thesis by (simp add: Btoi_loop_done)
  next
    case True
    note step = Btoi_loop_step [OF True, of n sign]
    consider (minus) "i = 0 \<and> b ! unat i = CHR ''-''"
      | (digit) "\<not> (i = 0 \<and> b ! unat i = CHR ''-'')"
          "(of_char (b ! unat i) :: nat) \<le> of_char CHR ''9''"
      | (other) "\<not> (i = 0 \<and> b ! unat i = CHR ''-'')"
          "\<not> (of_char (b ! unat i) :: nat) \<le> of_char CHR ''9''"
      by blast
    then show ?thesis
    proof cases
      case minus
      show ?thesis
      proof (cases "length b = 1")
        case True
        with "1.prems" minus show ?thesis unfolding step by auto
      next
        case False
        with "1.prems" minus have "Btoi_loop b (i + 1) n (- 1) = Inl e"
          unfolding step by auto
        with "1.IH"(1) [OF True minus False] show ?thesis .
      qed
    next
      case digit
      have d: "(0::nat) \<le> of_char (b ! unat i) \<and> (of_char (b ! unat i) :: nat) \<le> of_char CHR ''9''"
        using digit(2) by simp
      from "1.prems" digit have "Btoi_loop b (i + 1)
             ((if 0 < i then n * 10 else n)
                + (word_of_nat (of_char (b ! unat i)) - word_of_nat (of_char CHR ''0''))) sign = Inl e"
        unfolding step by auto
      with "1.IH"(2) [OF True digit(1) d] show ?thesis .
    next
      case other
      with "1.prems" show ?thesis unfolding step by auto
    qed
  qed
qed

lemma Btoi_error: "Btoi b = Inl e \<Longrightarrow> e = InvalidNumber"
  unfolding Btoi_def by (rule Btoi_loop_error)

text \<open>
  Claim C9. The loop of \<open>Btoi\<close> runs over the first \<open>len(b) mod 256\<close> bytes only. On an
  input whose length is a positive multiple of 256 it does not run at all and the
  result is \<open>0\<close> with no error; two inputs of the same length that agree on their first
  \<open>len(b) mod 256\<close> bytes have the same result, whatever the bytes after them are.
\<close>

theorem Btoi_reads_length_mod_256:
  "(0 < length b \<and> length b mod 256 = 0 \<longrightarrow> Btoi b = Inr 0)
   \<and> (length b' = length b \<and> take (length b mod 256) b' = take (length b mod 256) b
        \<longrightarrow> Btoi b' = Btoi b)"
proof (intro conjI impI)
  assume "0 < length b \<and> length b mod 256 = 0"
  then show "Btoi b = Inr 0" by (simp add: Btoi_multiple_256)
next
  assume "length b' = length b \<and> take (length b mod 256) b' = take (length b mod 256) b"
  then have "length b = length b'" and "take (length b mod 256) b = take (length b mod 256) b'"
    by simp_all
  then show "Btoi b' = Btoi b"
    unfolding Btoi_def by (rule Btoi_loop_prefix [symmetric])
qed

theorem Btoi_reads_length_mod_256_witness:
  "0 < length (replicate 256 CHR ''9'') \<and> length (replicate 256 CHR ''9'') mod 256 = 0
   \<and> Btoi (replicate 256 CHR ''9'') = Inr 0
   \<and> length (CHR ''7'' # replicate 256 CHR ''x'') = length (CHR ''7'' # replicate 256 CHR ''9'')
   \<and> Btoi (CHR ''7'' # replicate 256 CHR ''x'') = Btoi (CHR ''7'' # replicate 256 CHR ''9'')"
  using Btoi_reads_length_mod_256
    [of "replicate 256 CHR ''9''" "replicate 256 CHR ''9''"]
    Btoi_reads_length_mod_256
    [of "CHR ''7'' # replicate 256 CHR ''9''" "CHR ''7'' # replicate 256 CHR ''x''"]
  by simp

text \<open>
  Claim C3. The claim: \<open>Btoi\<close> fails with "Invalid number" on every input that holds a
  byte that is not a digit (a leading minus sign apart) and on the lone \<open>-\<close>, and
  \<open>Btoi "-5"\<close> is \<open>-5\<close>. The lower bound of the digit test is the number \<open>0\<close>, not the
  character \<open>'0'\<close>, so every byte up to \<open>'9'\<close> is taken as a digit of value
  \<open>byte - 48\<close>: on \<open>"1.5"\<close> the code returns \<open>(1 * 10 + (46 - 48)) * 10 + 5 = 85\<close>
  with no error. The three examples of the claim hold.
\<close>

theorem Btoi_non_digit_accepted:
  "Btoi ''1.5'' = Inr 85
   \<and> Btoi ''5a'' = Inl InvalidNumber
   \<and> Btoi ''-'' = Inl InvalidNumber
   \<and> Btoi ''-5'' = Inr (- 5)"
  by code_simp

subsection \<open>Decimal digits\<close>

text \<open>
  On the digits that \<open>Itoa\<close> writes for a number below \<open>2 ^ 63\<close>, \<open>Btoi\<close> returns the
  number: at most 19 digits, none of them a line feed or a minus sign.
\<close>

lemma Btoi_loop_digits:
  "length b < 256 \<Longrightarrow> \<forall>c\<in>set b. (48::nat) \<le> of_char c \<and> (of_char c :: nat) \<le> 57 \<Longrightarrow>
   unat i \<le> length b \<Longrightarrow> (i = 0 \<longrightarrow> n = 0) \<Longrightarrow>
   Btoi_loop b i n sign = Inr (sint (sign * foldl (\<lambda>a c. a * 10 + (word_of_nat (of_char c) - 48)) n (drop (unat i) b)))"
proof (induction b i n sign rule: Btoi_loop.induct)
  case (1 b i n sign)
  from "1.prems"(1) have bound: "unat (word_of_nat (length b) :: 8 word) = length b"
    by (simp add: unat_len8)
  show ?case
  proof (cases "i < word_of_nat (length b)")
    case False
    then have "length b \<le> unat i" using bound by (simp add: word_less_nat_alt)
    with "1.prems"(3) have "drop (unat i) b = []" by simp
    with False show ?thesis by (simp add: Btoi_loop_done)
  next
    case True
    then have lt: "unat i < length b" using bound by (simp add: word_less_nat_alt)
    from True have suc: "unat (i + 1) = Suc (unat i)" by unat_arith
    from lt have mem: "b ! unat i \<in> set b" by simp
    with "1.prems"(2) have dig: "(48::nat) \<le> of_char (b ! unat i)" "(of_char (b ! unat i) :: nat) \<le> 57"
      by blast+
    then have nm: "b ! unat i \<noteq> CHR ''-''" by auto
    then have nminus: "\<not> (i = 0 \<and> b ! unat i = CHR ''-'')" by simp
    have d: "(0::nat) \<le> of_char (b ! unat i) \<and> (of_char (b ! unat i) :: nat) \<le> of_char CHR ''9''"
      using dig by simp
    have n': "(if 0 < i then n * 10 else n) = n * 10"
      using "1.prems"(4) by (cases "i = 0") (simp_all add: word_gt_0)
    have "i + 1 \<noteq> 0" using suc by (metis Zero_not_Suc unat_0)
    then have z: "i + 1 = 0 \<longrightarrow> (if 0 < i then n * 10 else n)
                + (word_of_nat (of_char (b ! unat i)) - word_of_nat (of_char CHR ''0'')) = 0"
      by simp
    from suc lt have le: "unat (i + 1) \<le> length b" by simp
    note IH = "1.IH"(2) [OF True nminus d "1.prems"(1) "1.prems"(2) le z]
    have "drop (unat i) b = b ! unat i # drop (unat (i + 1)) b"
      using lt suc by (simp add: Cons_nth_drop_Suc)
    moreover have "Btoi_loop b i n sign = Btoi_loop b (i + 1)
        ((if 0 < i then n * 10 else n)
           + (word_of_nat (of_char (b ! unat i)) - word_of_nat (of_char CHR ''0''))) sign"
      unfolding Btoi_loop_step [OF True] by (simp only: nminus d [THEN conjunct2] if_False if_True)
    ultimately show ?thesis
      using IH n' by simp
  qed
qed

lemma of_char_digit_char: "d < 10 \<Longrightarrow> (of_char (digit_char d) :: nat) = 48 + d"
  by (simp add: digit_char_def)

lemma decimal_digits: "\<forall>c\<in>set (decimal n). (48::nat) \<le> of_char c \<and> (of_char c :: nat) \<le> 57"
proof (induction n rule: decimal.induct)
  case (1 n)
  show ?case
  proof (cases "n < 10")
    case True
    then show ?thesis by (subst decimal.simps) (simp add: of_char_digit_char)
  next
    case False
    have "n mod 10 < 10" by simp
    then have "(of_char (digit_char (n mod 10)) :: nat) = 48 + n mod 10"
      by (rule of_char_digit_char)
    moreover have "n mod 10 \<le> 9" by simp
    ultimately show ?thesis
      using False "1.IH" by (subst decimal.simps) auto
  qed
qed

lemma decimal_length: "0 < k \<Longrightarrow> n < 10 ^ k \<Longrightarrow> length (decimal n) \<le> k"
proof (induction k arbitrary: n)
  case 0
  then show ?case by simp
next
  case (Suc k)
  show ?case
  proof (cases "n < 10")
    case True
    then show ?thesis by (subst decimal.simps) simp
  next
    case False
    with Suc.prems have k: "0 < k" by (cases k) auto
    from Suc.prems have "n div 10 < 10 ^ k" by (simp add: less_mult_imp_div_less mult.commute)
    from Suc.IH [OF k this] False show ?thesis by (subst decimal.simps) simp
  qed
qed

lemma decimal_value:
  "foldl (\<lambda>a c. a * 10 + (word_of_nat (of_char c) - 48)) (0::64 word) (decimal n) = word_of_nat n"
proof (induction n rule: decimal.induct)
  case (1 n)
  show ?case
  proof (cases "n < 10")
    case True
    then show ?thesis by (subst decimal.simps) (simp add: of_char_digit_char)
  next
    case False
    have "n mod 10 < 10" by simp
    then have dc: "(of_char (digit_char (n mod 10)) :: nat) = 48 + n mod 10"
      by (rule of_char_digit_char)
    have "(word_of_nat n :: 64 word) = word_of_nat (n div 10 * 10 + n mod 10)"
      by simp
    also have "\<dots> = word_of_nat (n div 10) * 10 + word_of_nat (n mod 10)"
      by (simp only: of_nat_add of_nat_mult of_nat_numeral)
    finally have "(word_of_nat (n div 10) :: 64 word) * 10 + word_of_nat (n mod 10) = word_of_nat n"
      by (rule sym)
    then show ?thesis
      using False "1.IH" by (subst decimal.simps) (simp add: dc)
  qed
qed

lemma sint_word_of_nat_64: "n < 2 ^ 63 \<Longrightarrow> sint (word_of_nat n :: 64 word) = int n"
  by (simp add: signed_of_nat signed_take_bit_int_eq_self)

lemma Itoa_int: "Itoa (int n) = decimal n"
  by (simp add: Itoa_def intBuffer_def)

lemma Btoi_Itoa:
  assumes "n < 2 ^ 63"
  shows "Btoi (Itoa (int n)) = Inr (int n)"
proof -
  have "(2::nat) ^ 63 < 10 ^ 19" by simp
  with assms have "n < 10 ^ 19" by linarith
  then have "length (decimal n) \<le> 19" by (intro decimal_length) simp_all
  then have len: "length (decimal n) < 256" by simp
  have "Btoi (decimal n) = Inr (sint (1 * foldl (\<lambda>a c. a * 10 + (word_of_nat (of_char c) - 48)) (0::64 word) (drop (unat (0::8 word)) (decimal n))))"
    unfolding Btoi_def by (rule Btoi_loop_digits [OF len decimal_digits]) simp_all
  then show ?thesis
    using assms by (simp add: Itoa_int decimal_value sint_word_of_nat_64)
qed

lemma decimal_no_LF: "LF \<notin> set (decimal n)"
proof
  assume "LF \<in> set (decimal n)"
  with decimal_digits [of n] have "(48::nat) \<le> of_char LF" by blast
  then show False by (simp add: LF_def)
qed

subsection \<open>Reading lines and bulk payloads\<close>

lemma readLine_Inr:
  assumes "readLine r = Inr (line, r1)"
  shows "r = line @ r1" and "2 \<le> length line" and "length r1 + 2 \<le> length r"
proof -
  from assms have lf: "LF \<in> set r"
    and line: "line = takeWhile (\<lambda>c. c \<noteq> LF) r @ [LF]"
    and r1: "r1 = drop (length line) r"
    and len: "\<not> length line < 2"
    by (auto simp: readLine_def Let_def split: if_splits)
  from lf have "r = takeWhile (\<lambda>c. c \<noteq> LF) r @ dropWhile (\<lambda>c. c \<noteq> LF) r"
    by simp
  moreover from lf have "dropWhile (\<lambda>c. c \<noteq> LF) r \<noteq> []" by simp
  then have "hd (dropWhile (\<lambda>c. c \<noteq> LF) r) = LF"
    using hd_dropWhile [of "\<lambda>c. c \<noteq> LF" r] by simp
  then have "dropWhile (\<lambda>c. c \<noteq> LF) r = LF # tl (dropWhile (\<lambda>c. c \<noteq> LF) r)"
    using \<open>dropWhile (\<lambda>c. c \<noteq> LF) r \<noteq> []\<close> by (metis list.collapse)
  ultimately have "r = line @ tl (dropWhile (\<lambda>c. c \<noteq> LF) r)"
    using line by (metis append.assoc append_Cons append_Nil)
  then have "take (length line) r = line" by (metis append_eq_conv_conj)
  then show eq: "r = line @ r1" using r1 by (metis append_take_drop_id)
  from len show two: "2 \<le> length line" by simp
  from eq have "length r = length line + length r1" by (metis length_append)
  with two show "length r1 + 2 \<le> length r" by linarith
qed

lemma readLine_error: "readLine r = Inl e \<Longrightarrow> e = EOF \<or> e = InvalidPacket"
  by (auto simp: readLine_def Let_def split: if_splits)

lemma readLine_header:
  assumes "LF \<notin> set h"
  shows "readLine (h @ NEW_LINE @ rest) = Inr (h @ NEW_LINE, rest)"
proof -
  have "\<forall>x\<in>set h. x \<noteq> LF" using assms by blast
  then have tw: "takeWhile (\<lambda>c. c \<noteq> LF) (h @ CR # LF # rest) = h @ [CR]"
    by (simp add: takeWhile_append2 CR_def LF_def)
  show ?thesis
    by (simp add: readLine_def tw NEW_LINE_def Let_def nth_append)
qed

lemma strip_error: "strip b = Inl e \<Longrightarrow> e = Panic"
  by (auto simp: strip_def split: if_splits)

lemma strip_header: "strip (c # h @ NEW_LINE) = Inr h"
  by (simp add: strip_def NEW_LINE_def)

lemma ReadBulk_Inr:
  assumes "ReadBulk r sz raw = Inr (raw', r2)"
  shows "\<exists>c. r = c @ r2 \<and> raw' = raw @ c"
proof (cases "sz < 0")
  case True
  with assms show ?thesis by (simp add: ReadBulk_def)
next
  case False
  with assms obtain line where len: "\<not> length r < nat sz"
    and rl: "readLine (drop (nat sz) r) = Inr (line, r2)"
    and raw': "raw' = (raw @ take (nat sz) r) @ line"
    by (auto simp: ReadBulk_def Let_def split: if_splits sum.splits)
  from readLine_Inr(1) [OF rl] have "drop (nat sz) r = line @ r2" .
  then have "r = (take (nat sz) r @ line) @ r2"
    by (metis append.assoc append_take_drop_id)
  with raw' show ?thesis by auto
qed

lemma ReadBulk_error: "ReadBulk r sz raw = Inl e \<Longrightarrow> e \<noteq> OutOfFuel"
  by (auto simp: ReadBulk_def Let_def split: if_splits sum.splits dest: readLine_error)

lemma Parse_telnet_loop_error: "Parse_telnet_loop strs multi = Inl e \<Longrightarrow> e = ProtocolError"
  by (induction strs multi rule: Parse_telnet_loop.induct)
     (auto simp: Let_def split: if_splits sum.splits)

lemma Parse_telnet_error: "Parse_telnet line = Inl e \<Longrightarrow> e = ProtocolError"
  by (auto simp: Parse_telnet_def Let_def split: if_splits sum.splits dest: Parse_telnet_loop_error)

subsection \<open>The recursion bound of the decoder\<close>

text \<open>
  A successful \<open>Parse_fuel\<close> leaves less input than it was given. With a bound above the
  length of the input the bound is never met, and a larger bound gives the same result:
  \<open>Parse\<close> is \<open>Parse_fuel\<close> at any such bound.
\<close>

lemma Parse_fuel_rest:
  "Parse_fuel f r = Inr (v, r1) \<longrightarrow> length r1 < length r"
  "Parse_multi f j r = Inr (vs, r1) \<longrightarrow> length r1 \<le> length r"
proof (induction f r and f j r arbitrary: v r1 and vs r1 rule: Parse_fuel_Parse_multi.induct)
  case (1 r)
  show ?case by simp
next
  case (2 f r)
  show ?case
  proof
    assume ok: "Parse_fuel (Suc f) r = Inr (v, r1)"
    then obtain line r0 where rl: "readLine r = Inr (line, r0)"
      by (auto split: sum.splits)
    from readLine_Inr(3) [OF rl] have r0: "length r0 < length r" by linarith
    show "length r1 < length r"
    proof (cases "line ! 0 = CHR ''-'' \<or> line ! 0 = CHR ''+'' \<or> line ! 0 = CHR '':''")
      case True
      with ok rl have "r1 = r0" by (auto split: if_splits)
      with r0 show ?thesis by simp
    next
      case nl: False
      show ?thesis
      proof (cases "line ! 0 = CHR ''$''")
        case True
        with nl ok rl obtain sz raw where "ReadBulk r0 sz line = Inr (raw, r1)"
          by (auto split: sum.splits)
        from ReadBulk_Inr [OF this] have "length r1 \<le> length r0" by auto
        with r0 show ?thesis by simp
      next
        case nd: False
        show ?thesis
        proof (cases "line ! 0 = CHR ''*''")
          case False
          with nl nd ok rl have "r1 = r0" by (auto split: sum.splits)
          with r0 show ?thesis by simp
        next
          case star: True
          with nl nd ok rl obtain num i where num: "strip line = Inr num" and i: "Btoi num = Inr i"
            by (auto split: sum.splits)
          show ?thesis
          proof (cases "0 \<le> i")
            case False
            with nl nd star ok rl num i have "r1 = r0" by auto
            with r0 show ?thesis by simp
          next
            case True
            with nl nd star ok rl num i obtain multi where
              pm: "Parse_multi f (nat i) r0 = Inr (multi, r1)"
              by (auto split: sum.splits)
            from nl have n: "line ! 0 \<noteq> CHR ''-''" "line ! 0 \<noteq> CHR ''+''"
              "line ! 0 \<noteq> CHR '':''" by simp_all
            from "2.IH" [OF rl refl n nd star num i True, of multi r1] pm
            have "length r1 \<le> length r0" by simp
            with r0 show ?thesis by simp
          qed
        qed
      qed
    qed
  qed
next
  case (3 f r)
  show ?case by simp
next
  case (4 f j r)
  show ?case
  proof
    assume ok: "Parse_multi f (Suc j) r = Inr (vs, r1)"
    then obtain rp r0 rps where p1: "Parse_fuel f r = Inr (rp, r0)"
      and p2: "Parse_multi f j r0 = Inr (rps, r1)"
      by (auto split: sum.splits)
    from "4.IH"(1) [of rp r0] p1 have "length r0 < length r" by simp
    moreover from "4.IH"(2) [OF p1 refl, of rps r1] p2 have "length r1 \<le> length r0" by simp
    ultimately show "length r1 \<le> length r" by simp
  qed
qed

lemma Parse_fuel_enough:
  "length r < f \<longrightarrow> Parse_fuel f r \<noteq> Inl OutOfFuel"
  "length r < f \<longrightarrow> Parse_multi f j r \<noteq> Inl OutOfFuel"
proof (induction f r and f j r rule: Parse_fuel_Parse_multi.induct)
  case (1 r)
  show ?case by simp
next
  case (2 f r)
  show ?case
  proof
    assume len: "length r < Suc f"
    show "Parse_fuel (Suc f) r \<noteq> Inl OutOfFuel"
    proof (cases "readLine r")
      case (Inl e)
      with readLine_error [OF Inl] show ?thesis by auto
    next
      case (Inr p)
      obtain line r0 where p: "p = (line, r0)" by (cases p)
      note rl = Inr [unfolded p]
      from readLine_Inr(3) [OF rl] len have r0: "length r0 < f" by linarith
      show ?thesis
      proof (cases "line ! 0 = CHR ''-'' \<or> line ! 0 = CHR ''+'' \<or> line ! 0 = CHR '':''")
        case True
        with rl show ?thesis by auto
      next
        case nl: False
        show ?thesis
        proof (cases "line ! 0 = CHR ''$''")
          case True
          with nl rl show ?thesis
            by (auto split: sum.splits dest: strip_error Btoi_error ReadBulk_error)
        next
          case nd: False
          show ?thesis
          proof (cases "line ! 0 = CHR ''*''")
            case False
            with nl nd rl show ?thesis
              by (auto split: sum.splits dest: Parse_telnet_error)
          next
            case star: True
            show ?thesis
            proof (cases "strip line")
              case (Inl e)
              with nl nd star rl strip_error [OF Inl] show ?thesis by simp
            next
              case num: (Inr num)
              show ?thesis
              proof (cases "Btoi num")
                case (Inl e)
                with nl nd star rl num Btoi_error [OF Inl] show ?thesis by simp
              next
                case i: (Inr i)
                show ?thesis
                proof (cases "0 \<le> i")
                  case False
                  with nl nd star rl num i show ?thesis by simp
                next
                  case True
                  from nl have n: "line ! 0 \<noteq> CHR ''-''" "line ! 0 \<noteq> CHR ''+''"
                    "line ! 0 \<noteq> CHR '':''" by simp_all
                  from "2.IH" [OF rl refl n nd star num i True] r0
                  have "Parse_multi f (nat i) r0 \<noteq> Inl OutOfFuel" by simp
                  with nl nd star rl num i True show ?thesis
                    by (auto split: sum.splits)
                qed
              qed
            qed
          qed
        qed
      qed
    qed
  qed
next
  case (3 f r)
  show ?case by simp
next
  case (4 f j r)
  show ?case
  proof
    assume len: "length r < f"
    with "4.IH"(1) have ne: "Parse_fuel f r \<noteq> Inl OutOfFuel" by simp
    show "Parse_multi f (Suc j) r \<noteq> Inl OutOfFuel"
    proof (cases "Parse_fuel f r")
      case (Inl e)
      with ne show ?thesis by auto
    next
      case (Inr p)
      obtain rp r0 where p: "p = (rp, r0)" by (cases p)
      note p1 = Inr [unfolded p]
      from Parse_fuel_rest(1) [of f r rp r0] p1 len have "length r0 < f" by simp
      with "4.IH"(2) [OF p1 refl] have "Parse_multi f j r0 \<noteq> Inl OutOfFuel" by simp
      with p1 show ?thesis by (auto split: sum.splits)
    qed
  qed
qed

lemma Parse_fuel_more:
  "Parse_fuel f r \<noteq> Inl OutOfFuel \<longrightarrow> Parse_fuel (Suc f) r = Parse_fuel f r"
  "Parse_multi f j r \<noteq> Inl OutOfFuel \<longrightarrow> Parse_multi (Suc f) j r = Parse_multi f j r"
proof (induction f r and f j r rule: Parse_fuel_Parse_multi.induct)
  case (1 r)
  show ?case by simp
next
  case (2 f r)
  show ?case
  proof
    assume ne: "Parse_fuel (Suc f) r \<noteq> Inl OutOfFuel"
    show "Parse_fuel (Suc (Suc f)) r = Parse_fuel (Suc f) r"
    proof (cases "readLine r")
      case (Inl e)
      then show ?thesis by simp
    next
      case (Inr p)
      obtain line r0 where p: "p = (line, r0)" by (cases p)
      note rl = Inr [unfolded p]
      show ?thesis
      proof (cases "line ! 0 = CHR ''-'' \<or> line ! 0 = CHR ''+'' \<or> line ! 0 = CHR '':'' \<or> line ! 0 = CHR ''$''")
        case True
        with rl show ?thesis by auto
      next
        case nl: False
        show ?thesis
        proof (cases "line ! 0 = CHR ''*''")
          case False
          with nl rl show ?thesis by simp
        next
          case star: True
          show ?thesis
          proof (cases "strip line")
            case (Inl e)
            with nl star rl show ?thesis by simp
          next
            case num: (Inr num)
            show ?thesis
            proof (cases "Btoi num")
              case (Inl e)
              with nl star rl num show ?thesis by simp
            next
              case i: (Inr i)
              show ?thesis
              proof (cases "0 \<le> i")
                case False
                with nl star rl num i show ?thesis by simp
              next
                case True
                from nl have n: "line ! 0 \<noteq> CHR ''-''" "line ! 0 \<noteq> CHR ''+''"
                  "line ! 0 \<noteq> CHR '':''" "line ! 0 \<noteq> CHR ''$''" by simp_all
                from ne nl star rl num i True have "Parse_multi f (nat i) r0 \<noteq> Inl OutOfFuel"
                  by (auto split: sum.splits)
                with "2.IH" [OF rl refl n star num i True]
                have "Parse_multi (Suc f) (nat i) r0 = Parse_multi f (nat i) r0" by simp
                with nl star rl num i True show ?thesis by simp
              qed
            qed
          qed
        qed
      qed
    qed
  qed
next
  case (3 f r)
  show ?case by simp
next
  case (4 f j r)
  show ?case
  proof
    assume ne: "Parse_multi f (Suc j) r \<noteq> Inl OutOfFuel"
    then have "Parse_fuel f r \<noteq> Inl OutOfFuel" by (auto split: sum.splits)
    with "4.IH"(1) have eq: "Parse_fuel (Suc f) r = Parse_fuel f r" by simp
    show "Parse_multi (Suc f) (Suc j) r = Parse_multi f (Suc j) r"
    proof (cases "Parse_fuel f r")
      case (Inl e)
      with eq show ?thesis by simp
    next
      case (Inr p)
      obtain rp r0 where p: "p = (rp, r0)" by (cases p)
      note p1 = Inr [unfolded p]
      from ne p1 have "Parse_multi f j r0 \<noteq> Inl OutOfFuel" by (auto split: sum.splits)
      with "4.IH"(2) [OF p1 refl] have "Parse_multi (Suc f) j r0 = Parse_multi f j r0" by simp
      with eq p1 show ?thesis by simp
    qed
  qed
qed

lemma Parse_not_OutOfFuel: "Parse r \<noteq> Inl OutOfFuel"
  unfolding Parse_def using Parse_fuel_enough(1) [of r "Suc (length r)"] by simp

lemma Parse_fuel_independent:
  assumes "length r < f"
  shows "Parse_fuel f r = Parse r"
proof -
  have "Parse_fuel (Suc (length r) + k) r = Parse r" for k
  proof (induction k)
    case 0
    show ?case by (simp add: Parse_def)
  next
    case (Suc k)
    from Parse_fuel_enough(1) [of r "Suc (length r) + k"]
    have "Parse_fuel (Suc (length r) + k) r \<noteq> Inl OutOfFuel" by simp
    with Parse_fuel_more(1) [of "Suc (length r) + k" r] Suc show ?case by simp
  qed
  from this [of "f - Suc (length r)"] assms show ?thesis by simp
qed

text \<open>
  Claim C10. \<open>Btoi\<close> of the empty slice is \<open>0\<close> with no error, so a bulk header and an
  array header with an empty length field declare length \<open>0\<close>: the bulk reads no payload
  byte and the terminator, the array reads no child.
\<close>

theorem Btoi_empty_is_zero:
  "Btoi [] = Inr 0
   \<and> Parse (''$'' @ NEW_LINE @ NEW_LINE) = Inr (Resp BulkResp (''$'' @ NEW_LINE @ NEW_LINE) [], [])
   \<and> Parse (''$'' @ NEW_LINE @ NEW_LINE) =
       (case Parse (''$0'' @ NEW_LINE @ NEW_LINE) of
          Inl e \<Rightarrow> Inl e
        | Inr (v, rest) \<Rightarrow> Inr (Resp (Type v) (''$'' @ NEW_LINE @ NEW_LINE) (Multi v), rest))
   \<and> Parse (''*'' @ NEW_LINE) = Inr (Resp MultiResp (''*'' @ NEW_LINE) [], [])"
  by code_simp

subsection \<open>Decoding and encoding again\<close>

text \<open>
  \<open>Parse_framed\<close> returns what \<open>Parse\<close> returns, or the protocol error where \<open>Parse\<close>
  meets a line without a type marker. What it decodes, \<open>Bytes\<close> encodes to the bytes
  that were read; an array has as many children as its header declares.
\<close>

lemma Parse_framed_or_ProtocolError:
  "Parse_framed_fuel f r = Parse_fuel f r \<or> Parse_framed_fuel f r = Inl ProtocolError"
  "Parse_framed_multi f j r = Parse_multi f j r \<or> Parse_framed_multi f j r = Inl ProtocolError"
proof (induction f r and f j r rule: Parse_framed_fuel_Parse_framed_multi.induct)
  case (1 r)
  show ?case by simp
next
  case (2 f r)
  show ?case
  proof (cases "readLine r")
    case (Inl e)
    then show ?thesis by simp
  next
    case (Inr p)
    obtain line r0 where p: "p = (line, r0)" by (cases p)
    note rl = Inr [unfolded p]
    show ?thesis
    proof (cases "line ! 0 = CHR ''-'' \<or> line ! 0 = CHR ''+'' \<or> line ! 0 = CHR '':'' \<or> line ! 0 = CHR ''$''")
      case True
      with rl show ?thesis by auto
    next
      case nl: False
      show ?thesis
      proof (cases "line ! 0 = CHR ''*''")
        case False
        with nl rl show ?thesis by simp
      next
        case star: True
        show ?thesis
        proof (cases "strip line")
          case (Inl e)
          with nl star rl show ?thesis by simp
        next
          case num: (Inr num)
          show ?thesis
          proof (cases "Btoi num")
            case (Inl e)
            with nl star rl num show ?thesis by simp
          next
            case i: (Inr i)
            show ?thesis
            proof (cases "0 \<le> i")
              case False
              with nl star rl num i show ?thesis by simp
            next
              case True
              from nl have n: "line ! 0 \<noteq> CHR ''-''" "line ! 0 \<noteq> CHR ''+''"
                "line ! 0 \<noteq> CHR '':''" "line ! 0 \<noteq> CHR ''$''" by simp_all
              from "2.IH" [OF rl refl n star num i True]
              show ?thesis using nl star rl num i True by auto
            qed
          qed
        qed
      qed
    qed
  qed
next
  case (3 f r)
  show ?case by simp
next
  case (4 f j r)
  from "4.IH"(1) show ?case
  proof
    assume "Parse_framed_fuel f r = Inl ProtocolError"
    then show ?thesis by simp
  next
    assume eq: "Parse_framed_fuel f r = Parse_fuel f r"
    show ?thesis
    proof (cases "Parse_fuel f r")
      case (Inl e)
      with eq show ?thesis by simp
    next
      case (Inr p)
      obtain rp r0 where p: "p = (rp, r0)" by (cases p)
      from "4.IH"(2) [OF eq [unfolded Inr p] refl]
      show ?thesis using eq Inr p by auto
    qed
  qed
qed

lemma Parse_framed_not_OutOfFuel: "Parse_framed r \<noteq> Inl OutOfFuel"
  using Parse_framed_or_ProtocolError(1) [of "Suc (length r)" r] Parse_not_OutOfFuel [of r]
  by (auto simp: Parse_framed_def Parse_def)

lemma Parse_framed_Bytes:
  "(Parse_framed_fuel f r = Inr (v, r1) \<longrightarrow> (\<exists>c. r = c @ r1 \<and> Bytes v = Inr c))"
  "(Parse_framed_multi f j r = Inr (vs, r1) \<longrightarrow>
      (\<exists>c. r = c @ r1 \<and> length vs = j \<and> (\<forall>buf. Bytes_loop vs buf = Inr (buf @ c))))"
proof (induction f r and f j r arbitrary: v r1 and vs r1 rule: Parse_framed_fuel_Parse_framed_multi.induct)
  case (1 r)
  show ?case by simp
next
  case (2 f r)
  show ?case
  proof
    assume ok: "Parse_framed_fuel (Suc f) r = Inr (v, r1)"
    then obtain line r0 where rl: "readLine r = Inr (line, r0)"
      by (auto split: sum.splits)
    note cons = readLine_Inr [OF rl]
    consider (leaf) "line ! 0 = CHR ''-'' \<or> line ! 0 = CHR ''+'' \<or> line ! 0 = CHR '':''"
      | (bulk) "line ! 0 \<noteq> CHR ''-''" "line ! 0 \<noteq> CHR ''+''" "line ! 0 \<noteq> CHR '':''" "line ! 0 = CHR ''$''"
      | (array) "line ! 0 \<noteq> CHR ''-''" "line ! 0 \<noteq> CHR ''+''" "line ! 0 \<noteq> CHR '':''" "line ! 0 \<noteq> CHR ''$''" "line ! 0 = CHR ''*''"
      | (other) "line ! 0 \<noteq> CHR ''-''" "line ! 0 \<noteq> CHR ''+''" "line ! 0 \<noteq> CHR '':''" "line ! 0 \<noteq> CHR ''$''" "line ! 0 \<noteq> CHR ''*''"
      by blast
    then show "\<exists>c. r = c @ r1 \<and> Bytes v = Inr c"
    proof cases
      case leaf
      with ok rl have "r1 = r0" and "Bytes v = Inr line"
        by (auto split: if_splits)
      with cons show ?thesis by auto
    next
      case bulk
      with ok rl obtain num sz raw where "ReadBulk r0 sz line = Inr (raw, r1)"
        and v: "v = Resp BulkResp raw []"
        by (auto split: sum.splits)
      from ReadBulk_Inr [OF this(1)] obtain c where "r0 = c @ r1" "raw = line @ c" by blast
      with cons v show ?thesis by auto
    next
      case array
      with ok rl obtain num i where num: "strip line = Inr num" and i: "Btoi num = Inr i"
        by (auto split: sum.splits)
      show ?thesis
      proof (cases "i \<ge> 0")
        case False
        with ok rl array num i have "r1 = r0" and "v = Resp MultiResp line []"
          by auto
        with cons show ?thesis by auto
      next
        case True
        with ok rl array num i obtain multi where
          pm: "Parse_framed_multi f (nat i) r0 = Inr (multi, r1)" and v: "v = Resp MultiResp line multi"
          by (auto split: sum.splits)
        from "2.IH" [OF rl refl array(1) array(2) array(3) array(4) array(5) num i True, of multi r1] pm
        obtain c where c: "r0 = c @ r1" "\<forall>buf. Bytes_loop multi buf = Inr (buf @ c)"
          by blast
        have "Bytes v = Inr (line @ c)"
        proof (cases "multi = []")
          case True
          with c(2) [rule_format, of "[]"] have "c = []" by simp
          with True v show ?thesis by simp
        next
          case False
          with c(2) v show ?thesis by simp
        qed
        with cons c(1) show ?thesis by auto
      qed
    next
      case other
      with ok rl show ?thesis by simp
    qed
  qed
next
  case (3 f r)
  show ?case by auto
next
  case (4 f j r)
  show ?case
  proof
    assume ok: "Parse_framed_multi f (Suc j) r = Inr (vs, r1)"
    then obtain rp r0 rps where p1: "Parse_framed_fuel f r = Inr (rp, r0)"
      and p2: "Parse_framed_multi f j r0 = Inr (rps, r1)" and vs: "vs = rp # rps"
      by (auto split: sum.splits)
    from "4.IH"(1) [of rp r0] p1 obtain c1 where c1: "r = c1 @ r0" "Bytes rp = Inr c1" by blast
    from "4.IH"(2) [OF p1 refl, of rps r1] p2 obtain c2 where
      c2: "r0 = c2 @ r1" "length rps = j" "\<forall>buf. Bytes_loop rps buf = Inr (buf @ c2)" by blast
    have "r = (c1 @ c2) @ r1" using c1 c2 by simp
    moreover have "\<forall>buf. Bytes_loop vs buf = Inr (buf @ (c1 @ c2))"
      using vs c1 c2 by simp
    moreover have "length vs = Suc j" using vs c2 by simp
    ultimately show "\<exists>c. r = c @ r1 \<and> length vs = Suc j \<and> (\<forall>buf. Bytes_loop vs buf = Inr (buf @ c))"
      by blast
  qed
qed

text \<open>
  Claim C1. The claim: \<open>Bytes\<close> of the decoded value is the input, byte for byte, for
  every input that \<open>Parse\<close> accepts. It holds for every input that \<open>Parse\<close> accepts
  without reading a telnet line: the result of \<open>Bytes\<close> is the part of the input that
  \<open>Parse\<close> consumed, the whole input when nothing is left.
\<close>

theorem Parse_Bytes_round_trip:
  assumes "Parse_framed m = Inr (v, rest)"
  shows "Parse m = Inr (v, rest)
         \<and> Bytes v = Inr (take (length m - length rest) m)
         \<and> take (length m - length rest) m @ rest = m
         \<and> (rest = [] \<longrightarrow> Bytes v = Inr m)"
proof -
  from assms have fr: "Parse_framed_fuel (Suc (length m)) m = Inr (v, rest)"
    by (simp add: Parse_framed_def)
  with Parse_framed_or_ProtocolError(1) [of "Suc (length m)" m]
  have p: "Parse m = Inr (v, rest)" by (simp add: Parse_def)
  from Parse_framed_Bytes(1) [of "Suc (length m)" m v rest] fr
  obtain c where c: "m = c @ rest" "Bytes v = Inr c" by blast
  then have "take (length m - length rest) m = c" by simp
  with p c show ?thesis by auto
qed

theorem Parse_Bytes_round_trip_witness:
  "Parse_framed (''*2'' @ NEW_LINE @ ''$3'' @ NEW_LINE @ ''GET'' @ NEW_LINE @ '':7'' @ NEW_LINE)
     = Inr (Resp MultiResp (''*2'' @ NEW_LINE)
             [Resp BulkResp (''$3'' @ NEW_LINE @ ''GET'' @ NEW_LINE) [],
              Resp IntegerResp ('':7'' @ NEW_LINE) []], [])
   \<and> Parse (''*2'' @ NEW_LINE @ ''$3'' @ NEW_LINE @ ''GET'' @ NEW_LINE @ '':7'' @ NEW_LINE)
     = Inr (Resp MultiResp (''*2'' @ NEW_LINE)
             [Resp BulkResp (''$3'' @ NEW_LINE @ ''GET'' @ NEW_LINE) [],
              Resp IntegerResp ('':7'' @ NEW_LINE) []], [])
   \<and> Bytes (Resp MultiResp (''*2'' @ NEW_LINE)
             [Resp BulkResp (''$3'' @ NEW_LINE @ ''GET'' @ NEW_LINE) [],
              Resp IntegerResp ('':7'' @ NEW_LINE) []])
     = Inr (''*2'' @ NEW_LINE @ ''$3'' @ NEW_LINE @ ''GET'' @ NEW_LINE @ '':7'' @ NEW_LINE)"
proof -
  have h: "Parse_framed (''*2'' @ NEW_LINE @ ''$3'' @ NEW_LINE @ ''GET'' @ NEW_LINE @ '':7'' @ NEW_LINE)
     = Inr (Resp MultiResp (''*2'' @ NEW_LINE)
             [Resp BulkResp (''$3'' @ NEW_LINE @ ''GET'' @ NEW_LINE) [],
              Resp IntegerResp ('':7'' @ NEW_LINE) []], [])"
    by code_simp
  from Parse_Bytes_round_trip [OF h] h show ?thesis by simp
qed

text \<open>
  The claim fails on a telnet line, which \<open>Parse\<close> turns into an array of bulk
  strings: \<open>PING\<close> is encoded as \<open>*1\<close>, \<open>$4\<close>, \<open>PING\<close>.
\<close>

theorem Parse_Bytes_telnet_counterexample:
  "Parse (''PING'' @ NEW_LINE)
     = Inr (Resp MultiResp (''*1'' @ NEW_LINE)
             [Resp BulkResp (''$4'' @ NEW_LINE @ ''PING'' @ NEW_LINE) []], [])
   \<and> Bytes (Resp MultiResp (''*1'' @ NEW_LINE)
             [Resp BulkResp (''$4'' @ NEW_LINE @ ''PING'' @ NEW_LINE) []])
     = Inr (''*1'' @ NEW_LINE @ ''$4'' @ NEW_LINE @ ''PING'' @ NEW_LINE)
   \<and> Bytes (Resp MultiResp (''*1'' @ NEW_LINE)
             [Resp BulkResp (''$4'' @ NEW_LINE @ ''PING'' @ NEW_LINE) []])
     \<noteq> Inr (''PING'' @ NEW_LINE)"
  by code_simp

text \<open>
  Claim C4. The claim: the count in the header of a decoded array is the number of its
  children, also for an array made from a telnet line. The header of the telnet array is
  written from the number of pieces that \<open>strings.Split\<close> returns, before the empty
  pieces are dropped: \<open>PING\<close> followed by one space declares two children and has one.
\<close>

theorem Parse_telnet_count_mismatch:
  "Parse (''PING '' @ NEW_LINE)
   = Inr (Resp MultiResp (''*2'' @ NEW_LINE)
           [Resp BulkResp (''$4'' @ NEW_LINE @ ''PING'' @ NEW_LINE) []], [])
   \<and> Btoi ''2'' = Inr 2
   \<and> length [Resp BulkResp (''$4'' @ NEW_LINE @ ''PING'' @ NEW_LINE) []] = 1"
  by code_simp

subsection \<open>The placeholder key\<close>

lemma keyFun_thridAsKeyTbl: "name \<in> set thridAsKeyTbl \<Longrightarrow> keyFun name = Some thridAsKey"
  by (auto simp: keyFun_def thridAsKeyTbl_def)

text \<open>
  Claim C7. A command whose name is in the table of the third-argument strategy and
  that has fewer than four children has the single placeholder key, and \<open>Key\<close> returns
  it; \<open>Key\<close> returns the placeholder with no error for the decoded \<open>EVAL\<close> without
  arguments and for the decoded \<open>PING\<close>.
\<close>

theorem Keys_fallback_key:
  "(Op r = Inr name \<and> name \<in> set thridAsKeyTbl \<and> length (Multi r) < 4
      \<longrightarrow> Keys r = Inr [''fakeKey''] \<and> Key r = Inr ''fakeKey'')
   \<and> Parse (''*1'' @ NEW_LINE @ ''$4'' @ NEW_LINE @ ''EVAL'' @ NEW_LINE)
     = Inr (Resp MultiResp (''*1'' @ NEW_LINE)
             [Resp BulkResp (''$4'' @ NEW_LINE @ ''EVAL'' @ NEW_LINE) []], [])
   \<and> Key (Resp MultiResp (''*1'' @ NEW_LINE)
             [Resp BulkResp (''$4'' @ NEW_LINE @ ''EVAL'' @ NEW_LINE) []]) = Inr ''fakeKey''
   \<and> Parse (''*1'' @ NEW_LINE @ ''$4'' @ NEW_LINE @ ''PING'' @ NEW_LINE)
     = Inr (Resp MultiResp (''*1'' @ NEW_LINE)
             [Resp BulkResp (''$4'' @ NEW_LINE @ ''PING'' @ NEW_LINE) []], [])
   \<and> Key (Resp MultiResp (''*1'' @ NEW_LINE)
             [Resp BulkResp (''$4'' @ NEW_LINE @ ''PING'' @ NEW_LINE) []]) = Inr ''fakeKey''"
proof -
  have general: "Keys r = Inr [''fakeKey''] \<and> Key r = Inr ''fakeKey''"
    if "Op r = Inr name \<and> name \<in> set thridAsKeyTbl \<and> length (Multi r) < 4"
    using that by (simp add: Keys_def Key_def keyFun_thridAsKeyTbl thridAsKey_def fakeKey_def)
  have concrete:
    "Parse (''*1'' @ NEW_LINE @ ''$4'' @ NEW_LINE @ ''EVAL'' @ NEW_LINE)
     = Inr (Resp MultiResp (''*1'' @ NEW_LINE)
             [Resp BulkResp (''$4'' @ NEW_LINE @ ''EVAL'' @ NEW_LINE) []], [])
   \<and> Key (Resp MultiResp (''*1'' @ NEW_LINE)
             [Resp BulkResp (''$4'' @ NEW_LINE @ ''EVAL'' @ NEW_LINE) []]) = Inr ''fakeKey''
   \<and> Parse (''*1'' @ NEW_LINE @ ''$4'' @ NEW_LINE @ ''PING'' @ NEW_LINE)
     = Inr (Resp MultiResp (''*1'' @ NEW_LINE)
             [Resp BulkResp (''$4'' @ NEW_LINE @ ''PING'' @ NEW_LINE) []], [])
   \<and> Key (Resp MultiResp (''*1'' @ NEW_LINE)
             [Resp BulkResp (''$4'' @ NEW_LINE @ ''PING'' @ NEW_LINE) []]) = Inr ''fakeKey''"
    by code_simp
  from general concrete show ?thesis by blast
qed

theorem Keys_fallback_key_witness:
  "Op (Resp MultiResp (''*3'' @ NEW_LINE)
         [Resp BulkResp (''$11'' @ NEW_LINE @ ''ZUNIONSTORE'' @ NEW_LINE) [],
          Resp BulkResp (''$3'' @ NEW_LINE @ ''out'' @ NEW_LINE) [],
          Resp BulkResp (''$1'' @ NEW_LINE @ ''0'' @ NEW_LINE) []]) = Inr ''ZUNIONSTORE''
   \<and> ''ZUNIONSTORE'' \<in> set thridAsKeyTbl
   \<and> Keys (Resp MultiResp (''*3'' @ NEW_LINE)
         [Resp BulkResp (''$11'' @ NEW_LINE @ ''ZUNIONSTORE'' @ NEW_LINE) [],
          Resp BulkResp (''$3'' @ NEW_LINE @ ''out'' @ NEW_LINE) [],
          Resp BulkResp (''$1'' @ NEW_LINE @ ''0'' @ NEW_LINE) []]) = Inr [''fakeKey'']
   \<and> Key (Resp MultiResp (''*3'' @ NEW_LINE)
         [Resp BulkResp (''$11'' @ NEW_LINE @ ''ZUNIONSTORE'' @ NEW_LINE) [],
          Resp BulkResp (''$3'' @ NEW_LINE @ ''out'' @ NEW_LINE) [],
          Resp BulkResp (''$1'' @ NEW_LINE @ ''0'' @ NEW_LINE) []]) = Inr ''fakeKey''"
proof -
  have h: "Op (Resp MultiResp (''*3'' @ NEW_LINE)
         [Resp BulkResp (''$11'' @ NEW_LINE @ ''ZUNIONSTORE'' @ NEW_LINE) [],
          Resp BulkResp (''$3'' @ NEW_LINE @ ''out'' @ NEW_LINE) [],
          Resp BulkResp (''$1'' @ NEW_LINE @ ''0'' @ NEW_LINE) []]) = Inr ''ZUNIONSTORE''
     \<and> ''ZUNIONSTORE'' \<in> set thridAsKeyTbl
     \<and> length (Multi (Resp MultiResp (''*3'' @ NEW_LINE)
         [Resp BulkResp (''$11'' @ NEW_LINE @ ''ZUNIONSTORE'' @ NEW_LINE) [],
          Resp BulkResp (''$3'' @ NEW_LINE @ ''out'' @ NEW_LINE) [],
          Resp BulkResp (''$1'' @ NEW_LINE @ ''0'' @ NEW_LINE) []])) < 4"
    by code_simp
  with Keys_fallback_key
    [of "Resp MultiResp (''*3'' @ NEW_LINE)
         [Resp BulkResp (''$11'' @ NEW_LINE @ ''ZUNIONSTORE'' @ NEW_LINE) [],
          Resp BulkResp (''$3'' @ NEW_LINE @ ''out'' @ NEW_LINE) [],
          Resp BulkResp (''$1'' @ NEW_LINE @ ''0'' @ NEW_LINE) []]" "''ZUNIONSTORE''"]
  show ?thesis by blast
qed

subsection \<open>The default strategy on a command in multi-bulk framing\<close>

text \<open>
  \<open>Parse\<close> decodes the wire form of a command to one bulk node for each argument, and
  the two steps of the payload extraction (\<open>raw2Bulk\<close>, then the bytes after the first
  line feed) give the argument back.
\<close>

lemma Parse_fuel_bulkString:
  assumes "length a < 2 ^ 63"
  shows "Parse_fuel (Suc f) (bulkString a @ rest) = Inr (bulkNode a, rest)"
proof -
  let ?h = "CHR ''$'' # decimal (length a)"
  have eq: "bulkString a @ rest = ?h @ NEW_LINE @ (a @ NEW_LINE @ rest)"
    by (simp add: bulkString_def Itoa_int)
  have "LF \<notin> set ?h" using decimal_no_LF by (simp add: LF_def)
  then have rl: "readLine (bulkString a @ rest) = Inr (?h @ NEW_LINE, a @ NEW_LINE @ rest)"
    unfolding eq by (rule readLine_header)
  have st: "strip (?h @ NEW_LINE) = Inr (decimal (length a))"
    using strip_header [of "CHR ''$''" "decimal (length a)"] by simp
  have bt: "Btoi (decimal (length a)) = Inr (int (length a))"
    using Btoi_Itoa [OF assms] by (simp add: Itoa_int)
  have "readLine ([] @ NEW_LINE @ rest) = Inr ([] @ NEW_LINE, rest)"
    by (rule readLine_header) simp
  then have "ReadBulk (a @ NEW_LINE @ rest) (int (length a)) (?h @ NEW_LINE)
      = Inr ((?h @ NEW_LINE) @ a @ NEW_LINE, rest)"
    by (simp add: ReadBulk_def NEW_LINE_def)
  then show ?thesis
    using rl st bt by (simp add: bulkNode_def bulkString_def Itoa_int)
qed

lemma Parse_multi_bulkStrings:
  assumes "\<forall>a\<in>set as. length a < 2 ^ 63"
  shows "Parse_multi (Suc f) (length as) (concat (map bulkString as) @ rest)
         = Inr (map bulkNode as, rest)"
  using assms by (induction as) (simp_all add: Parse_fuel_bulkString del: Parse_fuel.simps)

lemma Parse_fuel_multiBulk:
  assumes "length args < 2 ^ 63" and "\<forall>a\<in>set args. length a < 2 ^ 63"
  shows "Parse_fuel (Suc (Suc f)) (multiBulk args @ rest)
         = Inr (Resp MultiResp ([CHR ''*''] @ Itoa (int (length args)) @ NEW_LINE) (map bulkNode args), rest)"
proof -
  let ?h = "CHR ''*'' # decimal (length args)"
  have eq: "multiBulk args @ rest = ?h @ NEW_LINE @ (concat (map bulkString args) @ rest)"
    by (simp add: multiBulk_def Itoa_int)
  have "LF \<notin> set ?h" using decimal_no_LF by (simp add: LF_def)
  then have rl: "readLine (multiBulk args @ rest)
      = Inr (?h @ NEW_LINE, concat (map bulkString args) @ rest)"
    unfolding eq by (rule readLine_header)
  have st: "strip (?h @ NEW_LINE) = Inr (decimal (length args))"
    using strip_header [of "CHR ''*''" "decimal (length args)"] by simp
  have bt: "Btoi (decimal (length args)) = Inr (int (length args))"
    using Btoi_Itoa [OF assms(1)] by (simp add: Itoa_int)
  show ?thesis
    using rl st bt Parse_multi_bulkStrings [OF assms(2), of f rest]
    by (simp add: Itoa_int)
qed

lemma Parse_multiBulk:
  assumes "length args < 2 ^ 63" and "\<forall>a\<in>set args. length a < 2 ^ 63"
  shows "Parse (multiBulk args)
         = Inr (Resp MultiResp ([CHR ''*''] @ Itoa (int (length args)) @ NEW_LINE) (map bulkNode args), [])"
proof -
  have "length (multiBulk args) = Suc (length (multiBulk args) - 1)"
    by (simp add: multiBulk_def)
  then have "Parse (multiBulk args) = Parse_fuel (Suc (Suc (length (multiBulk args) - 1))) (multiBulk args @ [])"
    by (simp add: Parse_def)
  then show ?thesis
    by (simp only: Parse_fuel_multiBulk [OF assms])
qed

lemma IndexByte_header:
  assumes "LF \<notin> set h"
  shows "IndexByte (h @ NEW_LINE @ a) LF = int (length h) + 1"
proof -
  have "\<forall>x\<in>set h. x \<noteq> LF" using assms by blast
  then have "takeWhile (\<lambda>c. c \<noteq> LF) (h @ NEW_LINE @ a) = h @ [CR]"
    by (simp add: takeWhile_append2 NEW_LINE_def CR_def LF_def)
  then show ?thesis by (simp add: IndexByte_def NEW_LINE_def)
qed

lemma raw2Bulk_bulkNode: "raw2Bulk (bulkNode a) = Inr (decimal (length a) @ NEW_LINE @ a)"
  using strip_header [of "CHR ''$''" "decimal (length a) @ NEW_LINE @ a"]
  by (simp add: raw2Bulk_def bulkNode_def bulkString_def Itoa_int)

lemma payload_after_header:
  assumes "LF \<notin> set h"
  shows "\<not> IndexByte (h @ NEW_LINE @ a) LF < 0"
    and "drop (nat (IndexByte (h @ NEW_LINE @ a) LF + 1)) (h @ NEW_LINE @ a) = a"
proof -
  note ix = IndexByte_header [OF assms, of a]
  show "\<not> IndexByte (h @ NEW_LINE @ a) LF < 0" unfolding ix by simp
  have "nat (int (length h) + 1 + 1) = length h + 2" by simp
  then show "drop (nat (IndexByte (h @ NEW_LINE @ a) LF + 1)) (h @ NEW_LINE @ a) = a"
    unfolding ix by (simp add: NEW_LINE_def)
qed

lemma defaultGetKeys_loop_bulkNode:
  "defaultGetKeys_loop (bulkNode a # vs) keys = defaultGetKeys_loop vs (keys @ [a])"
  by (simp only: defaultGetKeys_loop.simps raw2Bulk_bulkNode sum.case Let_def
        payload_after_header [OF decimal_no_LF] if_False)

lemma defaultGetKeys_loop_bulkNodes:
  "defaultGetKeys_loop (map bulkNode as) keys = Inr (keys @ as)"
  by (induction as arbitrary: keys)
     (simp_all add: defaultGetKeys_loop_bulkNode del: defaultGetKeys_loop.simps(2))

lemma Op_bulkNodes: "Op (Resp t raw (map bulkNode (a # as))) = Inr a"
proof -
  have "Multi (Resp t raw (map bulkNode (a # as))) ! 0 = bulkNode a"
    and "0 < length (Multi (Resp t raw (map bulkNode (a # as))))"
    by simp_all
  then show ?thesis
    by (simp only: Op_def raw2Bulk_bulkNode sum.case Let_def
          payload_after_header [OF decimal_no_LF] if_False if_True)
qed

lemma keyFun_None: "name \<notin> set thridAsKeyTbl \<Longrightarrow> keyFun name = None"
  by (simp add: keyFun_def map_of_eq_None_iff image_image)

lemma Keys_bulkNodes:
  assumes "args \<noteq> []" and "hd args \<notin> set thridAsKeyTbl"
  shows "Keys (Resp t raw (map bulkNode args)) = Inr (tl args)"
proof -
  from assms(1) obtain a as where args: "args = a # as" by (cases args) auto
  with assms(2) have "keyFun a = None" by (simp add: keyFun_None)
  moreover have "defaultGetKeys (Resp t raw (map bulkNode (a # as))) = Inr as"
    using defaultGetKeys_loop_bulkNodes [of as "[]"]
    by (simp add: defaultGetKeys_def drop_Suc)
  ultimately show ?thesis
    using Op_bulkNodes [of t raw a as] by (simp add: Keys_def args)
qed

text \<open>
  Claim C8. For a command in multi-bulk framing whose name is not in the table of
  strategies, \<open>Keys\<close> of the decoded command returns the arguments after the name, in
  order and without the length headers; for \<open>SET foo bar\<close> these are \<open>foo\<close> and
  \<open>bar\<close>. The lengths are below \<open>2 ^ 63\<close>, as every Go slice is.
\<close>

theorem Keys_default_strategy:
  assumes "args \<noteq> []" and "hd args \<notin> set thridAsKeyTbl"
    and "length args < 2 ^ 63" and "\<forall>a\<in>set args. length a < 2 ^ 63"
  shows "Parse (multiBulk args)
           = Inr (Resp MultiResp ([CHR ''*''] @ Itoa (int (length args)) @ NEW_LINE)
                    (map bulkNode args), [])
         \<and> Keys (Resp MultiResp ([CHR ''*''] @ Itoa (int (length args)) @ NEW_LINE)
                    (map bulkNode args)) = Inr (tl args)"
  using Parse_multiBulk [OF assms(3,4)] Keys_bulkNodes [OF assms(1,2)] by simp

theorem Keys_default_strategy_witness:
  "multiBulk [''SET'', ''foo'', ''bar'']
     = ''*3'' @ NEW_LINE @ ''$3'' @ NEW_LINE @ ''SET'' @ NEW_LINE
       @ ''$3'' @ NEW_LINE @ ''foo'' @ NEW_LINE @ ''$3'' @ NEW_LINE @ ''bar'' @ NEW_LINE
   \<and> Parse (multiBulk [''SET'', ''foo'', ''bar''])
     = Inr (Resp MultiResp (''*3'' @ NEW_LINE)
             [Resp BulkResp (''$3'' @ NEW_LINE @ ''SET'' @ NEW_LINE) [],
              Resp BulkResp (''$3'' @ NEW_LINE @ ''foo'' @ NEW_LINE) [],
              Resp BulkResp (''$3'' @ NEW_LINE @ ''bar'' @ NEW_LINE) []], [])
   \<and> Keys (Resp MultiResp (''*3'' @ NEW_LINE)
             [Resp BulkResp (''$3'' @ NEW_LINE @ ''SET'' @ NEW_LINE) [],
              Resp BulkResp (''$3'' @ NEW_LINE @ ''foo'' @ NEW_LINE) [],
              Resp BulkResp (''$3'' @ NEW_LINE @ ''bar'' @ NEW_LINE) []])
     = Inr [''foo'', ''bar'']"
proof -
  have h: "[''SET'', ''foo'', ''bar''] \<noteq> []"
    "hd [''SET'', ''foo'', ''bar''] \<notin> set thridAsKeyTbl"
    "length [''SET'', ''foo'', ''bar''] < 2 ^ 63"
    "\<forall>a\<in>set [''SET'', ''foo'', ''bar'']. length a < 2 ^ 63"
    by (simp_all add: thridAsKeyTbl_def)
  have w: "multiBulk [''SET'', ''foo'', ''bar'']
     = ''*3'' @ NEW_LINE @ ''$3'' @ NEW_LINE @ ''SET'' @ NEW_LINE
       @ ''$3'' @ NEW_LINE @ ''foo'' @ NEW_LINE @ ''$3'' @ NEW_LINE @ ''bar'' @ NEW_LINE"
    "[CHR ''*''] @ Itoa (int (length [''SET'', ''foo'', ''bar''])) @ NEW_LINE = ''*3'' @ NEW_LINE"
    "map bulkNode [''SET'', ''foo'', ''bar'']
       = [Resp BulkResp (''$3'' @ NEW_LINE @ ''SET'' @ NEW_LINE) [],
          Resp BulkResp (''$3'' @ NEW_LINE @ ''foo'' @ NEW_LINE) [],
          Resp BulkResp (''$3'' @ NEW_LINE @ ''bar'' @ NEW_LINE) []]"
    by code_simp+
  from Keys_default_strategy [OF h] show ?thesis
    unfolding w by simp
qed

subsection \<open>Key extraction on concrete commands\<close>

text \<open>
  Claim C2. The claim: for \<open>EVALSHA sha 2 keyA keyB arg1\<close> the keys are \<open>keyA\<close> and
  \<open>keyB\<close>. \<open>thridAsKey\<close> reads the count and the keys with \<open>raw2Bulk\<close> alone, without
  the search for the line feed that \<open>Op\<close> and \<open>defaultGetKeys\<close> do, so the length header
  of each bulk stays in front of its payload. The count is read from \<open>1\r\n2\<close>, which
  \<open>Btoi\<close> accepts as \<open>-2878\<close>; the loop never meets that length and returns every
  child from index \<open>3\<close> on, each with its header.
\<close>

theorem thridAsKey_EVALSHA:
  "Parse (''*6'' @ NEW_LINE @ ''$7'' @ NEW_LINE @ ''EVALSHA'' @ NEW_LINE
          @ ''$3'' @ NEW_LINE @ ''sha'' @ NEW_LINE @ ''$1'' @ NEW_LINE @ ''2'' @ NEW_LINE
          @ ''$4'' @ NEW_LINE @ ''keyA'' @ NEW_LINE @ ''$4'' @ NEW_LINE @ ''keyB'' @ NEW_LINE
          @ ''$4'' @ NEW_LINE @ ''arg1'' @ NEW_LINE)
   = Inr (Resp MultiResp (''*6'' @ NEW_LINE)
           [Resp BulkResp (''$7'' @ NEW_LINE @ ''EVALSHA'' @ NEW_LINE) [],
            Resp BulkResp (''$3'' @ NEW_LINE @ ''sha'' @ NEW_LINE) [],
            Resp BulkResp (''$1'' @ NEW_LINE @ ''2'' @ NEW_LINE) [],
            Resp BulkResp (''$4'' @ NEW_LINE @ ''keyA'' @ NEW_LINE) [],
            Resp BulkResp (''$4'' @ NEW_LINE @ ''keyB'' @ NEW_LINE) [],
            Resp BulkResp (''$4'' @ NEW_LINE @ ''arg1'' @ NEW_LINE) []], [])
   \<and> Btoi (''1'' @ NEW_LINE @ ''2'') = Inr (- 2878)
   \<and> Keys (Resp MultiResp (''*6'' @ NEW_LINE)
           [Resp BulkResp (''$7'' @ NEW_LINE @ ''EVALSHA'' @ NEW_LINE) [],
            Resp BulkResp (''$3'' @ NEW_LINE @ ''sha'' @ NEW_LINE) [],
            Resp BulkResp (''$1'' @ NEW_LINE @ ''2'' @ NEW_LINE) [],
            Resp BulkResp (''$4'' @ NEW_LINE @ ''keyA'' @ NEW_LINE) [],
            Resp BulkResp (''$4'' @ NEW_LINE @ ''keyB'' @ NEW_LINE) [],
            Resp BulkResp (''$4'' @ NEW_LINE @ ''arg1'' @ NEW_LINE) []])
     = Inr [''4'' @ NEW_LINE @ ''keyA'', ''4'' @ NEW_LINE @ ''keyB'', ''4'' @ NEW_LINE @ ''arg1'']"
  by code_simp

text \<open>
  Claim C5. The claim: an error of the key extraction reaches the caller of \<open>Keys\<close> and
  of \<open>Key\<close>. \<open>Keys\<close> returns it; \<open>Key\<close> returns the placeholder key and no error in its
  place, both for a value that is not an array (\<open>+OK\<close>) and for a key count that
  \<open>Btoi\<close> rejects (\<open>EVAL s x k\<close>).
\<close>

theorem Key_swallows_error:
  "Parse (''+OK'' @ NEW_LINE) = Inr (Resp SimpleString (''+OK'' @ NEW_LINE) [], [])
   \<and> Keys (Resp SimpleString (''+OK'' @ NEW_LINE) []) = Inl InvalidResp
   \<and> Key (Resp SimpleString (''+OK'' @ NEW_LINE) []) = Inr ''fakeKey''
   \<and> Parse (''*4'' @ NEW_LINE @ ''$4'' @ NEW_LINE @ ''EVAL'' @ NEW_LINE
            @ ''$1'' @ NEW_LINE @ ''s'' @ NEW_LINE @ ''$1'' @ NEW_LINE @ ''x'' @ NEW_LINE
            @ ''$1'' @ NEW_LINE @ ''k'' @ NEW_LINE)
     = Inr (Resp MultiResp (''*4'' @ NEW_LINE)
             [Resp BulkResp (''$4'' @ NEW_LINE @ ''EVAL'' @ NEW_LINE) [],
              Resp BulkResp (''$1'' @ NEW_LINE @ ''s'' @ NEW_LINE) [],
              Resp BulkResp (''$1'' @ NEW_LINE @ ''x'' @ NEW_LINE) [],
              Resp BulkResp (''$1'' @ NEW_LINE @ ''k'' @ NEW_LINE) []], [])
   \<and> Keys (Resp MultiResp (''*4'' @ NEW_LINE)
             [Resp BulkResp (''$4'' @ NEW_LINE @ ''EVAL'' @ NEW_LINE) [],
              Resp BulkResp (''$1'' @ NEW_LINE @ ''s'' @ NEW_LINE) [],
              Resp BulkResp (''$1'' @ NEW_LINE @ ''x'' @ NEW_LINE) [],
              Resp BulkResp (''$1'' @ NEW_LINE @ ''k'' @ NEW_LINE) []]) = Inl InvalidNumber
   \<and> Key (Resp MultiResp (''*4'' @ NEW_LINE)
             [Resp BulkResp (''$4'' @ NEW_LINE @ ''EVAL'' @ NEW_LINE) [],
              Resp BulkResp (''$1'' @ NEW_LINE @ ''s'' @ NEW_LINE) [],
              Resp BulkResp (''$1'' @ NEW_LINE @ ''x'' @ NEW_LINE) [],
              Resp BulkResp (''$1'' @ NEW_LINE @ ''k'' @ NEW_LINE) []]) = Inr ''fakeKey''"
  by code_simp

text \<open>
  Claim C6. The claim: for \<open>PING\<close>, \<open>SLOTSNUM\<close> and \<open>SLOTSCHECK\<close> the key is the
  placeholder, whatever arguments follow. The table \<open>noKeyOps\<close> says so, but neither
  \<open>Keys\<close> nor \<open>Key\<close> reads it: \<open>PING foo\<close> takes the default strategy and its key is
  \<open>foo\<close>.
\<close>

theorem Key_PING_with_argument:
  "noKeyOps ''PING'' = Some ''fakeKey''
   \<and> Parse (''*2'' @ NEW_LINE @ ''$4'' @ NEW_LINE @ ''PING'' @ NEW_LINE
            @ ''$3'' @ NEW_LINE @ ''foo'' @ NEW_LINE)
     = Inr (Resp MultiResp (''*2'' @ NEW_LINE)
             [Resp BulkResp (''$4'' @ NEW_LINE @ ''PING'' @ NEW_LINE) [],
              Resp BulkResp (''$3'' @ NEW_LINE @ ''foo'' @ NEW_LINE) []], [])
   \<and> Key (Resp MultiResp (''*2'' @ NEW_LINE)
             [Resp BulkResp (''$4'' @ NEW_LINE @ ''PING'' @ NEW_LINE) [],
              Resp BulkResp (''$3'' @ NEW_LINE @ ''foo'' @ NEW_LINE) []]) = Inr ''foo''"
  by code_simp

end
